theory Spec2Isabelle
  imports Complex_Main "HOL-Library.Multiset"
begin

text \<open>
  A model of \<^verbatim>\<open>pdf2docx/page/Pages.py\<close>: the collection's \<^verbatim>\<open>parse\<close>, which builds a
  raw page for every page that is not skipped, and \<^verbatim>\<open>_parse_header_footer\<close>, which finds
  the running heads and feet of a document by counting, over all pages, the texts of the
  first three and of the last three blocks of each page. Definitions come first, in the
  order of the source; the properties follow.
\<close>

section \<open>Text normalisation\<close>

text \<open>
  The detector keys its tallies on \<^verbatim>\<open>re.sub(r'\d+', '1', block.text.strip())\<close>
  (\<^verbatim>\<open>Pages.py\<close>, lines 111, 115, 129 and 134). Texts are modelled as
  \<^typ>\<open>string\<close>, a character being a code point below 256. In that range Python's
  \<^verbatim>\<open>str.isspace\<close> holds for the twelve code points listed in \<open>isspace\<close>, and
  the pattern \<^verbatim>\<open>\d\<close> matches the ten ASCII digits only.
\<close>

definition isspace :: "char \<Rightarrow> bool" where
  "isspace c = (c \<in> set [CHR 0x09, CHR 0x0A, CHR 0x0B, CHR 0x0C, CHR 0x0D,
                           CHR 0x1C, CHR 0x1D, CHR 0x1E, CHR 0x1F, CHR 0x20,
                           CHR 0x85, CHR 0xA0])"

definition isdigit :: "char \<Rightarrow> bool" where
  "isdigit c = (c \<in> set ''0123456789'')"

text \<open>\<^verbatim>\<open>str.strip()\<close>: leading and trailing whitespace removed.\<close>

definition strip :: "string \<Rightarrow> string" where
  "strip s = rev (dropWhile isspace (rev (dropWhile isspace s)))"

text \<open>
  \<^verbatim>\<open>re.sub(r'\d+', '1', s)\<close>: scanning from the left, every maximal run of digits
  (the pattern is greedy) is replaced by the single character \<open>1\<close>.
\<close>

function sub_digits :: "string \<Rightarrow> string" where
  "sub_digits [] = []"
| "sub_digits (c # cs) =
     (if isdigit c then CHR ''1'' # sub_digits (dropWhile isdigit cs)
      else c # sub_digits cs)"
  by pat_completeness auto
termination
  by (relation "measure length") (auto simp: less_Suc_eq_le length_dropWhile_le)

definition signature :: "string \<Rightarrow> string" where
  "signature s = sub_digits (strip s)"

text \<open>
  Two texts that differ only in their digit runs: read from the left, a non-digit
  character of one faces the same character of the other, and a maximal run of digits of
  one faces a maximal run of digits of the other (of any length and content).
\<close>

function same_but_digit_runs :: "string \<Rightarrow> string \<Rightarrow> bool" where
  "same_but_digit_runs [] [] = True"
| "same_but_digit_runs [] (d # ds) = False"
| "same_but_digit_runs (c # cs) [] = False"
| "same_but_digit_runs (c # cs) (d # ds) =
     (if isdigit c \<and> isdigit d
      then same_but_digit_runs (dropWhile isdigit cs) (dropWhile isdigit ds)
      else c = d \<and> \<not> isdigit c \<and> same_but_digit_runs cs ds)"
  by pat_completeness auto
termination
  by (relation "measure (\<lambda>(s, t). length s)") (auto simp: less_Suc_eq_le length_dropWhile_le)


section \<open>The threshold\<close>

text \<open>
  \<^verbatim>\<open>int(num_pages * 0.4)\<close> multiplies in IEEE 754 binary64 and truncates. The
  quantities met here are non-negative and far from the exponent limits, so a double is
  written as a natural number of units of \<open>2\<^sup>-\<^sup>5\<^sup>4\<close> (or of units of 1, for the
  integer operand), and rounding to the 53 bits of a significand is rounding of that
  natural number: to nearest, ties to the even significand.
\<close>

fun bit_length :: "nat \<Rightarrow> nat" where
  "bit_length n = (if n = 0 then 0 else Suc (bit_length (n div 2)))"

declare bit_length.simps [simp del]

definition round_to_53 :: "nat \<Rightarrow> nat" where
  "round_to_53 p =
     (let b = bit_length p in
      if b \<le> 53 then p
      else let s = b - 53; k = p div 2 ^ s; r = p mod 2 ^ s; half = 2 ^ (s - 1)
           in (if half < r \<or> (r = half \<and> odd k) then k + 1 else k) * 2 ^ s)"

text \<open>The double nearest to 0.4 is \<open>7205759403792794 \<times> 2\<^sup>-\<^sup>5\<^sup>4\<close>.\<close>

definition double_0_4 :: nat where
  "double_0_4 = 7205759403792794"

text \<open>\<^verbatim>\<open>num_pages * 0.4\<close>, in units of \<open>2\<^sup>-\<^sup>5\<^sup>4\<close>: the integer is converted to a
  double, the exact product is rounded.\<close>

definition float_mul_0_4 :: "nat \<Rightarrow> nat" where
  "float_mul_0_4 num_pages = round_to_53 (round_to_53 num_pages * double_0_4)"

text \<open>\<^verbatim>\<open>int(x)\<close> of a non-negative double given in units of \<open>2\<^sup>-\<^sup>5\<^sup>4\<close>.\<close>

definition int_of_float :: "nat \<Rightarrow> nat" where
  "int_of_float x = x div 2 ^ 54"

text \<open>Lines 98 to 101 of \<^verbatim>\<open>_parse_header_footer\<close>.\<close>

definition threshold_of :: "nat \<Rightarrow> nat" where
  "threshold_of num_pages =
     (let threshold = (if num_pages > 10 then int_of_float (float_mul_0_4 num_pages) else 4)
      in if 1 < num_pages \<and> num_pages \<le> 3 then num_pages else threshold)"


section \<open>Blocks and raw pages\<close>

text \<open>
  A bounding box is indexed in the source: \<^verbatim>\<open>bbox[1]\<close> is \<open>y0\<close> (the top) and
  \<^verbatim>\<open>bbox[3]\<close> is \<open>y1\<close> (the bottom). Coordinates are finite doubles that are only
  compared, never computed with, so they are rational numbers here.
\<close>

record rect =
  x0 :: rat
  y0 :: rat
  x1 :: rat
  y1 :: rat

text \<open>
  Of a block the detector reads \<^verbatim>\<open>text\<close> (\<^verbatim>\<open>None\<close> for a block without text) and
  \<^verbatim>\<open>bbox\<close>. Whatever else a block carries is the record's extension.
\<close>

record block =
  block_text :: "string option"
  bbox :: rect

text \<open>
  Of a raw page the code of \<^verbatim>\<open>Pages.py\<close> reads \<^verbatim>\<open>blocks\<close>, \<^verbatim>\<open>bbox\<close>,
  \<^verbatim>\<open>raw_text\<close>, \<^verbatim>\<open>width\<close> and \<^verbatim>\<open>height\<close> and writes \<^verbatim>\<open>header\<close>,
  \<^verbatim>\<open>footer\<close> and \<^verbatim>\<open>margin\<close>. A boundary that holds no number is \<open>None\<close>.
\<close>

record ('a, 'm) raw_page =
  blocks :: "'a block_scheme list"
  page_bbox :: rect
  header :: "rat option"
  footer :: "rat option"
  raw_text :: string
  raw_width :: rat
  raw_height :: rat
  raw_margin :: 'm


section \<open>The header and footer detector\<close>

text \<open>\<^verbatim>\<open>xs[-k]\<close> for \<open>1 \<le> k \<le> len(xs)\<close>.\<close>

definition neg_index :: "'a list \<Rightarrow> nat \<Rightarrow> 'a" where
  "neg_index xs k = xs ! (length xs - k)"

text \<open>\<^verbatim>\<open>max(xs, default=d)\<close> and \<^verbatim>\<open>min(xs, default=d)\<close>.\<close>

definition max_default :: "rat list \<Rightarrow> rat \<Rightarrow> rat" where
  "max_default xs d = (case xs of [] \<Rightarrow> d | x # rest \<Rightarrow> fold max rest x)"

definition min_default :: "rat list \<Rightarrow> rat \<Rightarrow> rat" where
  "min_default xs d = (case xs of [] \<Rightarrow> d | x # rest \<Rightarrow> fold min rest x)"

text \<open>
  A \<^verbatim>\<open>Counter\<close> that is only ever incremented by one is a multiset of its keys:
  \<^verbatim>\<open>c[k] += 1\<close> is \<open>add_mset k c\<close> and reading \<^verbatim>\<open>c[k]\<close> is \<open>count c k\<close> (0 for
  a key never counted).

  The body of the first \<^verbatim>\<open>for i in range(3)\<close> loop (lines 109 to 116); \<open>bs\<close> is the
  source's local \<^verbatim>\<open>blocks\<close>, the page's blocks in reading order.
\<close>

definition tally_step ::
  "'a block_scheme list \<Rightarrow> nat \<Rightarrow> string multiset \<times> string multiset
     \<Rightarrow> string multiset \<times> string multiset" where
  "tally_step bs i hf =
     (let headers = fst hf; footers = snd hf;
          headers =
            (if i < length bs then
               (case block_text (bs ! i) of
                  None \<Rightarrow> headers
                | Some t \<Rightarrow> add_mset (signature t) headers)
             else headers);
          footers =
            (if i < length bs then
               (case block_text (neg_index bs (i + 1)) of
                  None \<Rightarrow> footers
                | Some t \<Rightarrow> add_mset (signature t) footers)
             else footers)
      in (headers, footers))"

text \<open>
  Modelled from the spec: the class \<^verbatim>\<open>Collection\<close>, with its \<^verbatim>\<open>extend\<close> and its truth
  value, is not defined in \<^verbatim>\<open>Pages.py\<close>. The spec has the detector pass over the pages
  with zero blocks, so \<^verbatim>\<open>elements\<close>, the collection that lines 103 to 104 and 119 to 120
  build from \<^verbatim>\<open>page.blocks\<close>, is empty exactly when the page has no block.
\<close>

definition no_elements :: "('a, 'm, 'z) raw_page_scheme \<Rightarrow> bool" where
  "no_elements page = (blocks page = [])"

declare no_elements_def [simp]

text \<open>
  The body of the first loop over the pages (lines 103 to 116).
  \<open>sort_in_reading_order\<close> is the method of the block collection, which is not defined in
  \<^verbatim>\<open>Pages.py\<close>: it is a parameter, any function from the blocks of a page to the
  sequence that the loops index. The model reads \<^verbatim>\<open>page.blocks\<close> as the call found it;
  a method that sorts in place gives both passes the same sequence all the same, a sort
  being idempotent.
\<close>

definition tally_page ::
  "('a block_scheme list \<Rightarrow> 'a block_scheme list) \<Rightarrow> ('a, 'm, 'z) raw_page_scheme
     \<Rightarrow> string multiset \<times> string multiset \<Rightarrow> string multiset \<times> string multiset" where
  "tally_page sort_in_reading_order page hf =
     (if no_elements page then hf
      else fold (tally_step (sort_in_reading_order (blocks page))) [0..<3] hf)"

definition tally_pass ::
  "('a block_scheme list \<Rightarrow> 'a block_scheme list) \<Rightarrow> ('a, 'm, 'z) raw_page_scheme list
     \<Rightarrow> string multiset \<times> string multiset" where
  "tally_pass sort_in_reading_order raw_pages =
     fold (tally_page sort_in_reading_order) raw_pages ({#}, {#})"

text \<open>The body of the second \<^verbatim>\<open>for i in range(3)\<close> loop (lines 127 to 136).\<close>

definition classify_step ::
  "string multiset \<Rightarrow> string multiset \<Rightarrow> nat \<Rightarrow> 'a block_scheme list \<Rightarrow> nat
     \<Rightarrow> 'a block_scheme list \<times> 'a block_scheme list
     \<Rightarrow> 'a block_scheme list \<times> 'a block_scheme list" where
  "classify_step headers footers threshold bs i hbfb =
     (let header_blocks = fst hbfb; footer_blocks = snd hbfb;
          header_blocks =
            (if i < length bs then
               (case block_text (bs ! i) of
                  None \<Rightarrow> header_blocks
                | Some t \<Rightarrow>
                    if count headers (signature t) > threshold
                    then header_blocks @ [bs ! i] else header_blocks)
             else header_blocks);
          footer_blocks =
            (if i < length bs then
               (case block_text (neg_index bs (i + 1)) of
                  None \<Rightarrow> footer_blocks
                | Some t \<Rightarrow>
                    if count footers (signature t) > threshold
                    then footer_blocks @ [neg_index bs (i + 1)] else footer_blocks)
             else footer_blocks)
      in (header_blocks, footer_blocks))"

text \<open>The body of the second loop over the pages (lines 119 to 138).\<close>

definition classify_page ::
  "('a block_scheme list \<Rightarrow> 'a block_scheme list) \<Rightarrow> string multiset \<Rightarrow> string multiset
     \<Rightarrow> nat \<Rightarrow> ('a, 'm, 'z) raw_page_scheme \<Rightarrow> ('a, 'm, 'z) raw_page_scheme" where
  "classify_page sort_in_reading_order headers footers threshold page =
     (if no_elements page then page
      else
        let sorted_blocks = sort_in_reading_order (blocks page);
            hbfb = fold (classify_step headers footers threshold sorted_blocks) [0..<3] ([], []);
            header_blocks = fst hbfb; footer_blocks = snd hbfb
        in page\<lparr>header := Some (max_default (map (\<lambda>b. y1 (bbox b)) header_blocks) 0),
                footer := Some (min_default (map (\<lambda>b. y0 (bbox b)) footer_blocks)
                                  (y1 (page_bbox page)))\<rparr>)"

text \<open>\<^verbatim>\<open>Pages._parse_header_footer\<close>: the raw pages as the call leaves them.\<close>

definition parse_header_footer ::
  "('a block_scheme list \<Rightarrow> 'a block_scheme list) \<Rightarrow> ('a, 'm, 'z) raw_page_scheme list
     \<Rightarrow> ('a, 'm, 'z) raw_page_scheme list" where
  "parse_header_footer sort_in_reading_order raw_pages =
     (let num_pages = length raw_pages;
          threshold = threshold_of num_pages;
          hf = tally_pass sort_in_reading_order raw_pages;
          headers = fst hf; footers = snd hf
      in map (classify_page sort_in_reading_order headers footers threshold) raw_pages)"

text \<open>\<^verbatim>\<open>Pages._parse_document\<close>.\<close>

definition parse_document ::
  "('a block_scheme list \<Rightarrow> 'a block_scheme list) \<Rightarrow> ('a, 'm, 'z) raw_page_scheme list
     \<Rightarrow> ('a, 'm, 'z) raw_page_scheme list" where
  "parse_document sort_in_reading_order raw_pages =
     parse_header_footer sort_in_reading_order raw_pages"


section \<open>The coordinator\<close>

text \<open>
  A \<^verbatim>\<open>Page\<close>, with the attributes that \<^verbatim>\<open>Pages.parse\<close> reads or writes
  (\<^verbatim>\<open>id\<close> is \<open>page_id\<close> here); whatever else a page carries is the record's extension.
\<close>

record ('m, 's, 'i) page =
  page_id :: nat
  skip_parsing :: bool
  width :: rat
  height :: rat
  margin :: 'm
  sections :: "'s list"
  float_images :: "'i list"

text \<open>
  What \<^verbatim>\<open>Pages.parse\<close> calls and \<^verbatim>\<open>Pages.py\<close> does not define, taken as
  parameters, with the document and the settings fixed:
  \<^verbatim>\<open>Fonts.extract(fitz_doc)\<close>,
  \<^verbatim>\<open>RawPageFactory.create(page_engine=fitz_doc[id], backend='PyMuPDF')\<close>, the raw page's
  methods \<^verbatim>\<open>restore\<close>, \<^verbatim>\<open>clean_up\<close>, \<^verbatim>\<open>process_font\<close>, \<^verbatim>\<open>calculate_margin\<close> and
  \<^verbatim>\<open>parse_section\<close> (a method that mutates the raw page returns its new state), and of
  the block collection \<^verbatim>\<open>floating_image_blocks\<close> and \<^verbatim>\<open>sort_in_reading_order\<close>.
  Each is a total function: an exception raised inside one of them ends the run at that
  call and is not part of this model.
\<close>

record ('a, 'm, 's, 'i, 'f, 'z) collaborators =
  fonts_extract :: 'f
  create :: "nat \<Rightarrow> ('a, 'm, 'z) raw_page_scheme"
  restore :: "('a, 'm, 'z) raw_page_scheme \<Rightarrow> ('a, 'm, 'z) raw_page_scheme"
  clean_up :: "('a, 'm, 'z) raw_page_scheme \<Rightarrow> ('a, 'm, 'z) raw_page_scheme"
  process_font :: "'f \<Rightarrow> ('a, 'm, 'z) raw_page_scheme \<Rightarrow> ('a, 'm, 'z) raw_page_scheme"
  floating_image_blocks :: "'a block_scheme list \<Rightarrow> 'i list"
  sort_in_reading_order :: "'a block_scheme list \<Rightarrow> 'a block_scheme list"
  calculate_margin :: "('a, 'm, 'z) raw_page_scheme \<Rightarrow> 'm"
  parse_section :: "('a, 'm, 'z) raw_page_scheme \<Rightarrow> 's list"

text \<open>What \<^verbatim>\<open>logging\<close> receives.\<close>

datatype log_record = Warning string

definition words_count_warning :: log_record where
  "words_count_warning =
     Warning ''Words count: 0. It might be a scanned pdf, which is not supported yet.''"

text \<open>
  The body of the first loop of \<^verbatim>\<open>parse\<close> (lines 35 to 58), at the \<open>i\<close>-th page of
  the collection. The state is the collection \<open>self\<close> and the locals \<^verbatim>\<open>pages\<close>,
  \<^verbatim>\<open>raw_pages\<close> and \<^verbatim>\<open>words_found\<close>. The source's \<^verbatim>\<open>pages\<close> holds references to
  page objects of the collection, which are mutated in place: here it holds their
  positions in \<open>self\<close>. \<^verbatim>\<open>float_images.reset().extend(xs)\<close> leaves the list \<open>xs\<close>.
\<close>

definition restore_step ::
  "('a, 'm, 's, 'i, 'f, 'z) collaborators \<Rightarrow> 'f \<Rightarrow> nat
     \<Rightarrow> ('m, 's, 'i, 'y) page_scheme list \<times> nat list \<times> ('a, 'm, 'z) raw_page_scheme list \<times> bool
     \<Rightarrow> ('m, 's, 'i, 'y) page_scheme list \<times> nat list \<times> ('a, 'm, 'z) raw_page_scheme list \<times> bool"
  where
  "restore_step C fonts i st =
     (case st of (self, pages, raw_pages, words_found) \<Rightarrow>
        let page = self ! i in
        if skip_parsing page then st
        else
          let raw_page = create C (page_id page);
              raw_page = restore C raw_page;
              words_found =
                (if \<not> words_found \<and> strip (raw_text raw_page) \<noteq> [] then True
                 else words_found);
              raw_page = clean_up C raw_page;
              raw_page = process_font C fonts raw_page;
              page = page\<lparr>width := raw_width raw_page,
                          height := raw_height raw_page,
                          float_images := floating_image_blocks C (blocks raw_page)\<rparr>
          in (self[i := page], pages @ [i], raw_pages @ [raw_page], words_found))"

text \<open>
  The body of the last loop of \<^verbatim>\<open>parse\<close> (lines 79 to 85), for the page at
  position \<open>i\<close> and its raw page. \<^verbatim>\<open>sections.extend(xs)\<close> appends \<open>xs\<close>.
\<close>

definition section_step ::
  "('a, 'm, 's, 'i, 'f, 'z) collaborators \<Rightarrow> nat \<times> ('a, 'm, 'z) raw_page_scheme
     \<Rightarrow> ('m, 's, 'i, 'y) page_scheme list \<Rightarrow> ('m, 's, 'i, 'y) page_scheme list" where
  "section_step C ir self =
     (case ir of (i, raw_page) \<Rightarrow>
        let m = calculate_margin C raw_page;
            raw_page = raw_page\<lparr>raw_margin := m\<rparr>;
            page = (self ! i)\<lparr>margin := m\<rparr>;
            secs = parse_section C raw_page
        in self[i := page\<lparr>sections := sections page @ secs\<rparr>])"

text \<open>\<^verbatim>\<open>Pages.parse\<close>: the collection as the call leaves it, and what was logged.\<close>

definition parse ::
  "('a, 'm, 's, 'i, 'f, 'z) collaborators \<Rightarrow> ('m, 's, 'i, 'y) page_scheme list
     \<Rightarrow> ('m, 's, 'i, 'y) page_scheme list \<times> log_record list" where
  "parse C self =
     (let fonts = fonts_extract C;
          st = fold (restore_step C fonts) [0..<length self] (self, [], [], False);
          self = fst st; pages = fst (snd st);
          raw_pages = fst (snd (snd st)); words_found = snd (snd (snd st));
          logged = (if \<not> words_found then [words_count_warning] else []);
          raw_pages = parse_document (sort_in_reading_order C) raw_pages;
          self = fold (section_step C) (zip pages raw_pages) self
      in (self, logged))"


section \<open>Notions used in the statements\<close>

text \<open>The signatures of the blocks of a window that have a text, in the window's order.\<close>

definition signatures :: "'a block_scheme list \<Rightarrow> string list" where
  "signatures bs = map signature (List.map_filter block_text bs)"

text \<open>
  What one page adds to the header tally and to the footer tally: the header window is
  the first three blocks in reading order, the footer window the last three, the last
  block first.
\<close>

definition header_signatures ::
  "('a block_scheme list \<Rightarrow> 'a block_scheme list) \<Rightarrow> ('a, 'm, 'z) raw_page_scheme
     \<Rightarrow> string list" where
  "header_signatures srt page =
     (if blocks page = [] then [] else signatures (take 3 (srt (blocks page))))"

definition footer_signatures ::
  "('a block_scheme list \<Rightarrow> 'a block_scheme list) \<Rightarrow> ('a, 'm, 'z) raw_page_scheme
     \<Rightarrow> string list" where
  "footer_signatures srt page =
     (if blocks page = [] then [] else signatures (take 3 (rev (srt (blocks page)))))"

text \<open>A block is classified against a tally when it has a text and the count of its
  signature in the tally exceeds the threshold.\<close>

definition classified :: "string multiset \<Rightarrow> nat \<Rightarrow> 'a block_scheme \<Rightarrow> bool" where
  "classified tally threshold b =
     (case block_text b of
        None \<Rightarrow> False
      | Some t \<Rightarrow> threshold < count tally (signature t))"

text \<open>The raw page that the first loop of \<^verbatim>\<open>parse\<close> builds for a page, and whether
  the text read from it (after \<^verbatim>\<open>restore\<close>, before \<^verbatim>\<open>clean_up\<close>) has a character that
  is not whitespace.\<close>

definition raw_of ::
  "('a, 'm, 's, 'i, 'f, 'z) collaborators \<Rightarrow> ('m, 's, 'i, 'y) page_scheme
     \<Rightarrow> ('a, 'm, 'z) raw_page_scheme" where
  "raw_of C p = process_font C (fonts_extract C) (clean_up C (restore C (create C (page_id p))))"

definition has_words ::
  "('a, 'm, 's, 'i, 'f, 'z) collaborators \<Rightarrow> ('m, 's, 'i, 'y) page_scheme \<Rightarrow> bool" where
  "has_words C p = (strip (raw_text (restore C (create C (page_id p)))) \<noteq> [])"

text \<open>The page as the first loop of \<^verbatim>\<open>parse\<close> leaves it.\<close>

definition restored ::
  "('a, 'm, 's, 'i, 'f, 'z) collaborators \<Rightarrow> ('m, 's, 'i, 'y) page_scheme
     \<Rightarrow> ('m, 's, 'i, 'y) page_scheme" where
  "restored C p =
     p\<lparr>width := raw_width (raw_of C p), height := raw_height (raw_of C p),
       float_images := floating_image_blocks C (blocks (raw_of C p))\<rparr>"

text \<open>The raw page of the page \<open>p\<close> as the detector leaves it, in a run of \<^verbatim>\<open>parse\<close>
  on the collection \<open>ps\<close>: the detector sees the raw pages of the pages that are not
  skipped.\<close>

definition detected ::
  "('a, 'm, 's, 'i, 'f, 'z) collaborators \<Rightarrow> ('m, 's, 'i, 'y) page_scheme list
     \<Rightarrow> ('m, 's, 'i, 'y) page_scheme \<Rightarrow> ('a, 'm, 'z) raw_page_scheme" where
  "detected C ps p =
     (let raw_pages = map (raw_of C) (filter (\<lambda>q. \<not> skip_parsing q) ps);
          hf = tally_pass (sort_in_reading_order C) raw_pages
      in classify_page (sort_in_reading_order C) (fst hf) (snd hf)
           (threshold_of (length raw_pages)) (raw_of C p))"

text \<open>A page after the last loop of \<^verbatim>\<open>parse\<close> has met it with the raw page \<open>r\<close>.\<close>

definition sectioned ::
  "('a, 'm, 's, 'i, 'f, 'z) collaborators \<Rightarrow> ('m, 's, 'i, 'y) page_scheme
     \<Rightarrow> ('a, 'm, 'z) raw_page_scheme \<Rightarrow> ('m, 's, 'i, 'y) page_scheme" where
  "sectioned C p r =
     p\<lparr>margin := calculate_margin C r,
       sections := sections p @ parse_section C (r\<lparr>raw_margin := calculate_margin C r\<rparr>)\<rparr>"

text \<open>A text with its trailing whitespace removed (the right half of \<open>strip\<close>).\<close>

definition rstrip :: "string \<Rightarrow> string" where
  "rstrip s = rev (dropWhile isspace (rev s))"


section \<open>Concrete documents\<close>

text \<open>A text block and a block without text, 100 wide, from \<open>upper\<close> to \<open>lower\<close>.\<close>

definition text_block :: "string \<Rightarrow> rat \<Rightarrow> rat \<Rightarrow> block" where
  "text_block t upper lower =
     \<lparr>block_text = Some t, bbox = \<lparr>x0 = 0, y0 = upper, x1 = 100, y1 = lower\<rparr>\<rparr>"

definition graphic_block :: "rat \<Rightarrow> rat \<Rightarrow> block" where
  "graphic_block upper lower =
     \<lparr>block_text = None, bbox = \<lparr>x0 = 0, y0 = upper, x1 = 100, y1 = lower\<rparr>\<rparr>"

text \<open>A raw page of 600 by 800 with the given blocks, its boundaries not yet written.\<close>

definition raw_page_of :: "block list \<Rightarrow> (unit, unit) raw_page" where
  "raw_page_of bs =
     \<lparr>blocks = bs, page_bbox = \<lparr>x0 = 0, y0 = 0, x1 = 600, y1 = 800\<rparr>,
      header = None, footer = None, raw_text = [], raw_width = 600, raw_height = 800,
      raw_margin = ()\<rparr>"

text \<open>The blocks of the documents below are listed in reading order already.\<close>

definition as_listed :: "block list \<Rightarrow> block list" where
  "as_listed bs = bs"

text \<open>One page whose first three blocks carry the same text.\<close>

definition repeated_on_one_page :: "(unit, unit) raw_page list" where
  "repeated_on_one_page =
     [raw_page_of [text_block ''a'' 0 10, text_block ''a'' 10 20, text_block ''a'' 20 30]]"

text \<open>One page with a single block.\<close>

definition one_page_document :: "(unit, unit) raw_page list" where
  "one_page_document = [raw_page_of [text_block ''Title'' 10 50]]"

text \<open>One page without blocks.\<close>

definition blank_document :: "(unit, unit) raw_page list" where
  "blank_document = [raw_page_of []]"


text \<open>Five pages, each with a single block whose text is one space.\<close>

definition space_document :: "(unit, unit) raw_page list" where
  "space_document = replicate 5 (raw_page_of [text_block '' '' 10 50])"

text \<open>A page whose first block has a text of one space and whose second has none.\<close>

definition mixed_page :: "(unit, unit) raw_page" where
  "mixed_page = raw_page_of [text_block '' '' 10 50, graphic_block 100 300]"

text \<open>Five pages with the running head \<open>Report\<close>, a sixth page without blocks and a
  seventh whose only block has no text.\<close>

definition report_document :: "(unit, unit) raw_page list" where
  "report_document =
     replicate 5 (raw_page_of [text_block ''Report'' 10 50]) @
     [raw_page_of [], raw_page_of [graphic_block 100 300]]"

text \<open>Five pages of seven stacked blocks: a running head, five paragraphs that differ
  from page to page (they are graphics here) and the page number.\<close>

definition long_page :: "string \<Rightarrow> (unit, unit) raw_page" where
  "long_page number =
     raw_page_of [text_block ''Report'' 10 50, graphic_block 100 200, graphic_block 200 300,
       graphic_block 300 400, graphic_block 400 500, graphic_block 500 600,
       text_block (''Page '' @ number) 700 750]"

definition long_document :: "(unit, unit) raw_page list" where
  "long_document = map long_page [''1'', ''2'', ''3'', ''4'', ''5'']"



text \<open>Five pages of six blocks, the first of them a column beside the others.\<close>

definition sidebar_page :: "(unit, unit) raw_page" where
  "sidebar_page =
     raw_page_of [text_block ''Contents'' 10 700, graphic_block 20 100, graphic_block 100 200,
       graphic_block 200 300, graphic_block 300 400, text_block ''Draft'' 600 650]"

definition sidebar_document :: "(unit, unit) raw_page list" where
  "sidebar_document = replicate 5 sidebar_page"

text \<open>
  A collection of three pages, the second of them skipped, and two sources for it: one
  whose pages hold the text \<open>Report\<close>, and a scanned one whose pages hold an image and no
  text. The margin is the pair of boundaries the detector wrote, the sections are the
  number of blocks, and every block floats.
\<close>

definition sample_page :: "nat \<Rightarrow> bool \<Rightarrow> (rat option \<times> rat option, nat, block) page" where
  "sample_page n skip =
     \<lparr>page_id = n, skip_parsing = skip, width = 0, height = 0, margin = (None, None),
      sections = [7], float_images = []\<rparr>"

definition sample_pages :: "(rat option \<times> rat option, nat, block) page list" where
  "sample_pages = [sample_page 0 False, sample_page 1 True, sample_page 2 False]"

definition sample_raw_page ::
  "block list \<Rightarrow> string \<Rightarrow> (unit, rat option \<times> rat option) raw_page" where
  "sample_raw_page bs t =
     \<lparr>blocks = bs, page_bbox = \<lparr>x0 = 0, y0 = 0, x1 = 600, y1 = 800\<rparr>,
      header = None, footer = None, raw_text = t, raw_width = 600, raw_height = 800,
      raw_margin = (None, None)\<rparr>"

definition sample_source ::
  "(nat \<Rightarrow> (unit, rat option \<times> rat option) raw_page)
     \<Rightarrow> (unit, rat option \<times> rat option, nat, block, unit, unit) collaborators" where
  "sample_source new_raw_page =
     \<lparr>fonts_extract = (), create = new_raw_page, restore = (\<lambda>r. r), clean_up = (\<lambda>r. r),
      process_font = (\<lambda>f r. r), floating_image_blocks = (\<lambda>bs. bs),
      sort_in_reading_order = as_listed,
      calculate_margin = (\<lambda>r. (header r, footer r)),
      parse_section = (\<lambda>r. [length (blocks r)])\<rparr>"

definition printed_source ::
  "(unit, rat option \<times> rat option, nat, block, unit, unit) collaborators" where
  "printed_source =
     sample_source (\<lambda>n. sample_raw_page [text_block ''Report'' 10 50] ''Report '')"

definition scanned_source ::
  "(unit, rat option \<times> rat option, nat, block, unit, unit) collaborators" where
  "scanned_source = sample_source (\<lambda>n. sample_raw_page [graphic_block 0 800] ''  '')"


section \<open>Signatures\<close>

lemmas signature_eval = signature_def strip_def isspace_def isdigit_def

lemma digit_not_space: "isdigit c \<Longrightarrow> \<not> isspace c"
  by (auto simp: isdigit_def isspace_def)

lemma one_not_space: "\<not> isspace CHR ''1''"
  by (simp add: isspace_def)

lemma sub_digits_same:
  "same_but_digit_runs s t \<Longrightarrow> sub_digits s = sub_digits t"
  by (induction s t rule: same_but_digit_runs.induct) (auto split: if_splits)

lemma sub_digits_no_digits: "\<forall>c \<in> set w. \<not> isdigit c \<Longrightarrow> sub_digits w = w"
  by (induction w) simp_all

lemma sub_digits_append:
  "w = [] \<or> \<not> isdigit (hd w) \<Longrightarrow> sub_digits (a @ w) = sub_digits a @ sub_digits w"
proof (induction a rule: sub_digits.induct)
  case 1
  then show ?case by simp
next
  case (2 c cs)
  have w: "dropWhile isdigit w = w" using "2.prems" by (cases w) auto
  show ?case
  proof (cases "isdigit c")
    case True
    have "sub_digits (dropWhile isdigit (cs @ w)) =
          sub_digits (dropWhile isdigit cs) @ sub_digits w"
    proof (cases "\<forall>x \<in> set cs. isdigit x")
      case all: True
      have e: "dropWhile isdigit cs = []" using all by simp
      have "dropWhile isdigit (cs @ w) = w" using all w by (simp add: dropWhile_append)
      then show ?thesis by (simp only: e sub_digits.simps(1) append_Nil)
    next
      case False
      then have "dropWhile isdigit (cs @ w) = dropWhile isdigit cs @ w"
        by (auto simp: dropWhile_append)
      then show ?thesis using "2.IH"(1) [OF True "2.prems"] by simp
    qed
    then show ?thesis using True by simp
  next
    case False
    then show ?thesis using "2.IH"(2) [OF False "2.prems"] by simp
  qed
qed

lemma sub_digits_dropWhile_space:
  "sub_digits (dropWhile isspace s) = dropWhile isspace (sub_digits s)"
proof (induction s)
  case Nil
  then show ?case by simp
next
  case (Cons c cs)
  show ?case
  proof (cases "isspace c")
    case True
    then have "\<not> isdigit c" using digit_not_space by blast
    then show ?thesis using True Cons by simp
  next
    case False
    then show ?thesis by (simp add: one_not_space)
  qed
qed

lemma sub_digits_Nil_iff: "sub_digits a = [] \<longleftrightarrow> a = []"
  by (cases a) simp_all

lemma last_dropWhile: "dropWhile P xs \<noteq> [] \<Longrightarrow> last (dropWhile P xs) = last xs"
proof -
  assume ne: "dropWhile P xs \<noteq> []"
  have "last xs = last (takeWhile P xs @ dropWhile P xs)" by simp
  also have "\<dots> = last (dropWhile P xs)" using ne by (simp only: last_append if_False)
  finally show ?thesis by simp
qed

lemma last_sub_digits_not_space:
  "a \<noteq> [] \<Longrightarrow> \<not> isspace (last a) \<Longrightarrow> \<not> isspace (last (sub_digits a))"
proof (induction a rule: sub_digits.induct)
  case 1
  then show ?case by simp
next
  case (2 c cs)
  show ?case
  proof (cases "isdigit c")
    case True
    show ?thesis
    proof (cases "dropWhile isdigit cs = []")
      case e: True
      have "sub_digits (c # cs) = [CHR ''1'']"
        using True by (simp only: sub_digits.simps if_True e)
      then show ?thesis by (simp add: one_not_space)
    next
      case ne: False
      then have cs: "cs \<noteq> []" by auto
      have "last (dropWhile isdigit cs) = last (c # cs)"
        using last_dropWhile [OF ne] cs by simp
      then have "\<not> isspace (last (sub_digits (dropWhile isdigit cs)))"
        using "2.IH"(1) [OF True ne] "2.prems"(2) by simp
      then show ?thesis using True ne by (auto simp: sub_digits_Nil_iff one_not_space)
    qed
  next
    case False
    show ?thesis
    proof (cases "cs = []")
      case True
      then show ?thesis using False "2.prems" by simp
    next
      case ne: False
      then have "\<not> isspace (last (sub_digits cs))"
        using "2.IH"(2) [OF False ne] "2.prems"(2) by simp
      then show ?thesis using False ne by (simp add: sub_digits_Nil_iff)
    qed
  qed
qed

lemma rstrip_append_spaces: "\<forall>c \<in> set w. isspace c \<Longrightarrow> rstrip (a @ w) = rstrip a"
  by (simp add: rstrip_def dropWhile_append)

lemma rstrip_id: "a = [] \<or> \<not> isspace (last a) \<Longrightarrow> rstrip a = a"
proof (cases "a = []")
  case True
  then show ?thesis by (simp add: rstrip_def)
next
  case False
  assume "a = [] \<or> \<not> isspace (last a)"
  then have "\<not> isspace (hd (rev a))" using False by (simp add: hd_rev)
  then have "dropWhile isspace (rev a) = rev a" using False by (cases "rev a") auto
  then show ?thesis by (simp add: rstrip_def)
qed

lemma rstrip_split: "s = rstrip s @ rev (takeWhile isspace (rev s))"
proof -
  have "rstrip s @ rev (takeWhile isspace (rev s)) =
        rev (takeWhile isspace (rev s) @ dropWhile isspace (rev s))"
    by (simp only: rstrip_def rev_append)
  also have "\<dots> = rev (rev s)" by (simp only: takeWhile_dropWhile_id)
  also have "\<dots> = s" by simp
  finally show ?thesis by simp
qed

lemma rstrip_last: "rstrip s = [] \<or> \<not> isspace (last (rstrip s))"
proof (cases "dropWhile isspace (rev s) = []")
  case True
  then show ?thesis by (simp add: rstrip_def)
next
  case False
  then have "\<not> isspace (hd (dropWhile isspace (rev s)))" by (rule hd_dropWhile)
  then show ?thesis using False by (simp add: rstrip_def last_rev)
qed

lemma sub_digits_rstrip: "sub_digits (rstrip s) = rstrip (sub_digits s)"
proof -
  define w where "w = rev (takeWhile isspace (rev s))"
  have s: "s = rstrip s @ w" unfolding w_def by (rule rstrip_split)
  have sp: "\<forall>c \<in> set w. isspace c" by (auto simp: w_def dest: set_takeWhileD)
  then have nd: "\<forall>c \<in> set w. \<not> isdigit c" using digit_not_space by blast
  then have w0: "w = [] \<or> \<not> isdigit (hd w)" by (cases w) auto
  have "sub_digits s = sub_digits (rstrip s) @ w"
    using sub_digits_append [OF w0, of "rstrip s"] s sub_digits_no_digits [OF nd] by simp
  then have "rstrip (sub_digits s) = rstrip (sub_digits (rstrip s))"
    using rstrip_append_spaces [OF sp] by simp
  also have "\<dots> = sub_digits (rstrip s)"
  proof (rule rstrip_id)
    show "sub_digits (rstrip s) = [] \<or> \<not> isspace (last (sub_digits (rstrip s)))"
      using rstrip_last [of s] last_sub_digits_not_space [of "rstrip s"]
      by (auto simp: sub_digits_Nil_iff)
  qed
  finally show ?thesis by simp
qed

lemma signature_commute: "signature s = strip (sub_digits s)"
proof -
  have "signature s = sub_digits (rstrip (dropWhile isspace s))"
    by (simp add: signature_def strip_def rstrip_def)
  also have "\<dots> = rstrip (dropWhile isspace (sub_digits s))"
    by (simp add: sub_digits_rstrip sub_digits_dropWhile_space)
  finally show ?thesis by (simp add: strip_def rstrip_def)
qed

lemma sub_digits_append_after_non_digit:
  "a = [] \<or> \<not> isdigit (last a) \<Longrightarrow> sub_digits (a @ w) = sub_digits a @ sub_digits w"
proof (induction a rule: sub_digits.induct)
  case 1
  then show ?case by simp
next
  case (2 c cs)
  show ?case
  proof (cases "isdigit c")
    case True
    then have cs: "cs \<noteq> []" using "2.prems" by auto
    then have l: "\<not> isdigit (last cs)" using "2.prems" by simp
    have "last cs \<in> set cs" using cs by simp
    then have ne: "dropWhile isdigit cs \<noteq> []" using l by auto
    then have "\<not> isdigit (last (dropWhile isdigit cs))" using l by (simp add: last_dropWhile)
    then have "sub_digits (dropWhile isdigit cs @ w) =
        sub_digits (dropWhile isdigit cs) @ sub_digits w"
      using "2.IH"(1) [OF True] by simp
    moreover have "dropWhile isdigit (cs @ w) = dropWhile isdigit cs @ w"
      using ne by (auto simp: dropWhile_append)
    ultimately show ?thesis using True by simp
  next
    case False
    show ?thesis
    proof (cases "cs = []")
      case True
      then show ?thesis using False by simp
    next
      case ne: False
      then have "sub_digits (cs @ w) = sub_digits cs @ sub_digits w"
        using "2.IH"(2) [OF False] "2.prems" by simp
      then show ?thesis using False by simp
    qed
  qed
qed

lemma sub_digits_run:
  assumes "ds \<noteq> []" and "\<forall>c \<in> set ds. isdigit c" and "b = [] \<or> \<not> isdigit (hd b)"
  shows "sub_digits (ds @ b) = CHR ''1'' # sub_digits b"
proof -
  obtain d ds' where ds: "ds = d # ds'" using assms(1) by (cases ds) auto
  have b: "dropWhile isdigit b = b" using assms(3) by (cases b) auto
  have "dropWhile isdigit (ds' @ b) = b" using assms(2) b by (simp add: ds dropWhile_append)
  then show ?thesis using assms(2) by (simp add: ds)
qed

lemma strip_padded:
  assumes "\<forall>c \<in> set l. isspace c" and "\<forall>c \<in> set r. isspace c"
  shows "strip (l @ s @ r) = strip s"
proof -
  have left: "dropWhile isspace (l @ s @ r) = dropWhile isspace (s @ r)"
    using assms(1) by (simp add: dropWhile_append)
  show ?thesis
  proof (cases "\<forall>c \<in> set s. isspace c")
    case True
    then have "dropWhile isspace (s @ r) = []" and "dropWhile isspace s = []"
      using assms(2) by simp_all
    then show ?thesis by (simp only: strip_def left rev.simps dropWhile.simps)
  next
    case False
    then have "dropWhile isspace (s @ r) = dropWhile isspace s @ r"
      by (auto simp: dropWhile_append)
    then have "strip (l @ s @ r) = rstrip (dropWhile isspace s @ r)"
      by (simp only: strip_def left rstrip_def)
    also have "\<dots> = rstrip (dropWhile isspace s)" using assms(2) by (rule rstrip_append_spaces)
    finally show ?thesis by (simp add: strip_def rstrip_def)
  qed
qed

text \<open>
  Claim C7. The signature is a function of the text alone, \<open>signature s = sub_digits (strip s)\<close>:
  whitespace around the text does not change it, a maximal run of digits contributes the
  one digit \<open>1\<close> whatever its length and content, and a text without digits is only
  trimmed. Hence two texts that differ only in their digit runs, such as \<open>Page 1 of 10\<close>
  and \<open>Page 2 of 10\<close>, have the same signature.
\<close>

theorem signature_ignores_digit_runs:
  "(same_but_digit_runs s t \<longrightarrow> signature s = signature t) \<and>
   ((\<forall>c \<in> set l. isspace c) \<and> (\<forall>c \<in> set r. isspace c) \<longrightarrow>
      signature (l @ s @ r) = signature s) \<and>
   (ds \<noteq> [] \<and> (\<forall>c \<in> set ds. isdigit c) \<and> (a = [] \<or> \<not> isdigit (last a)) \<and>
    (b = [] \<or> \<not> isdigit (hd b)) \<longrightarrow>
      sub_digits (a @ ds @ b) = sub_digits a @ CHR ''1'' # sub_digits b) \<and>
   ((\<forall>c \<in> set s. \<not> isdigit c) \<longrightarrow> signature s = strip s)"
proof -
  have 1: "signature s = signature t" if "same_but_digit_runs s t"
    using that by (simp add: signature_commute sub_digits_same)
  have 2: "signature (l @ s @ r) = signature s"
    if "\<forall>c \<in> set l. isspace c" "\<forall>c \<in> set r. isspace c"
    using that by (simp add: signature_def strip_padded)
  have 3: "sub_digits (a @ ds @ b) = sub_digits a @ CHR ''1'' # sub_digits b"
    if "ds \<noteq> []" "\<forall>c \<in> set ds. isdigit c" "a = [] \<or> \<not> isdigit (last a)"
      "b = [] \<or> \<not> isdigit (hd b)"
    using that by (simp add: sub_digits_append_after_non_digit sub_digits_run)
  have 4: "signature s = strip s" if "\<forall>c \<in> set s. \<not> isdigit c"
    using that by (simp add: signature_commute sub_digits_no_digits)
  show ?thesis using 1 2 3 4 by blast
qed

theorem signature_ignores_digit_runs_witness:
  "same_but_digit_runs ''Page 1 of 10'' ''Page 2 of 10'' \<and>
   signature ''Page 1 of 10'' = signature ''Page 2 of 10'' \<and>
   signature ''Page 2 of 10'' = ''Page 1 of 1'' \<and>
   signature (''  '' @ ''Page 1 of 10'' @ '' '') = signature ''Page 1 of 10'' \<and>
   sub_digits (''Page '' @ ''12'' @ '' of 10'') = sub_digits ''Page '' @ CHR ''1'' # sub_digits '' of 10'' \<and>
   signature ''Contents'' = strip ''Contents''"
proof -
  have same: "same_but_digit_runs ''Page 1 of 10'' ''Page 2 of 10''"
    by (simp add: isdigit_def)
  have sp: "(\<forall>c \<in> set ''  ''. isspace c) \<and> (\<forall>c \<in> set '' ''. isspace c)"
    by (simp add: isspace_def)
  have run: "''12'' \<noteq> [] \<and> (\<forall>c \<in> set ''12''. isdigit c) \<and>
      (''Page '' = [] \<or> \<not> isdigit (last ''Page '')) \<and>
      ('' of 10'' = [] \<or> \<not> isdigit (hd '' of 10''))"
    by (simp add: isdigit_def)
  have nd: "\<forall>c \<in> set ''Contents''. \<not> isdigit c" by (simp add: isdigit_def)
  have v: "signature ''Page 2 of 10'' = ''Page 1 of 1''" by (simp add: signature_eval)
  note T = signature_ignores_digit_runs [of "''Page 1 of 10''" "''Page 2 of 10''" "''  ''"
        "'' ''" "''12''" "''Page ''" "'' of 10''"]
  note U = signature_ignores_digit_runs [of "''Contents''" "''Contents''" "''  ''"
        "'' ''" "''12''" "''Page ''" "'' of 10''"]
  have 1: "signature ''Page 1 of 10'' = signature ''Page 2 of 10''" using T same by blast
  have 2: "signature (''  '' @ ''Page 1 of 10'' @ '' '') = signature ''Page 1 of 10''"
    using T sp by blast
  have 3: "sub_digits (''Page '' @ ''12'' @ '' of 10'') =
      sub_digits ''Page '' @ CHR ''1'' # sub_digits '' of 10''"
    using T run by blast
  have 4: "signature ''Contents'' = strip ''Contents''" using U nd by blast
  show ?thesis using same 1 v 2 3 4 by blast
qed


section \<open>The threshold rule\<close>

lemma bit_length_le: "n < 2 ^ k \<Longrightarrow> bit_length n \<le> k"
proof (induction k arbitrary: n)
  case 0
  then show ?case by (simp add: bit_length.simps)
next
  case (Suc k)
  have "n div 2 < 2 ^ k" using Suc.prems by simp
  then have "bit_length (n div 2) \<le> k" by (rule Suc.IH)
  then show ?case by (subst bit_length.simps) simp
qed

lemma round_to_53_exact: "n < 2 ^ 53 \<Longrightarrow> round_to_53 n = n"
  using bit_length_le [of n 53] by (simp add: round_to_53_def Let_def)

lemma round_to_53_upper:
  assumes "p < 2 ^ 103"
  shows "round_to_53 p \<le> p + 2 ^ 49"
proof (cases "bit_length p \<le> 53")
  case True
  then show ?thesis by (simp add: round_to_53_def Let_def)
next
  case False
  define s where "s = bit_length p - 53"
  define k where "k = p div 2 ^ s"
  define r where "r = p mod 2 ^ s"
  have b: "bit_length p \<le> 103" using assms by (rule bit_length_le)
  have s: "1 \<le> s" "s \<le> 50" using False b by (simp_all add: s_def)
  have p: "p = k * 2 ^ s + r"
    using div_mult_mod_eq [of p "2 ^ s"] by (simp add: k_def r_def)
  have two: "(2::nat) ^ s = 2 * 2 ^ (s - 1)"
    using s by (cases s) simp_all
  have half: "(2::nat) ^ (s - 1) \<le> 2 ^ 49"
    using s by (intro power_increasing) simp_all
  have r: "round_to_53 p = (if 2 ^ (s - 1) < r \<or> (r = 2 ^ (s - 1) \<and> odd k) then k + 1 else k) * 2 ^ s"
    using False by (simp add: round_to_53_def Let_def s_def k_def r_def)
  show ?thesis
  proof (cases "2 ^ (s - 1) < r \<or> (r = 2 ^ (s - 1) \<and> odd k)")
    case True
    then have "2 ^ (s - 1) \<le> r" by auto
    moreover have "round_to_53 p = k * 2 ^ s + 2 ^ s" using r True by (simp add: algebra_simps)
    ultimately show ?thesis using p two half by linarith
  next
    case False
    then have "round_to_53 p = k * 2 ^ s" using r by simp
    then show ?thesis using p by linarith
  qed
qed

lemma round_to_53_lower:
  assumes "p < 2 ^ 103" and "m * 2 ^ 54 \<le> p"
  shows "m * 2 ^ 54 \<le> round_to_53 p"
proof (cases "bit_length p \<le> 53")
  case True
  then show ?thesis using assms by (simp add: round_to_53_def Let_def)
next
  case False
  define s where "s = bit_length p - 53"
  define k where "k = p div 2 ^ s"
  have b: "bit_length p \<le> 103" using assms(1) by (rule bit_length_le)
  have s: "s \<le> 50" using False b by (simp add: s_def)
  have split: "(2::nat) ^ 54 = 2 ^ (54 - s) * 2 ^ s"
    using s by (simp flip: power_add)
  have eq: "m * 2 ^ 54 = m * 2 ^ (54 - s) * 2 ^ s"
    by (subst split) (rule mult.assoc [symmetric])
  have "m * 2 ^ (54 - s) * 2 ^ s \<le> p" using assms(2) unfolding eq .
  then have "m * 2 ^ (54 - s) \<le> k"
    by (simp add: k_def less_eq_div_iff_mult_less_eq)
  then have "m * 2 ^ (54 - s) * 2 ^ s \<le> k * 2 ^ s" by (rule mult_le_mono1)
  then have low: "m * 2 ^ 54 \<le> k * 2 ^ s" unfolding eq .
  have "k * 2 ^ s \<le> round_to_53 p"
    using False by (simp add: round_to_53_def Let_def s_def k_def)
  then show ?thesis using low by linarith
qed

lemma int_float_mul_0_4:
  assumes "n < 2 ^ 50"
  shows "int_of_float (float_mul_0_4 n) = (2 * n) div 5"
proof -
  define p where "p = n * double_0_4"
  define q where "q = (2 * n) div 5"
  define r where "r = (2 * n) mod 5"
  have n53: "n < 2 ^ 53" using assms by simp
  have fm: "float_mul_0_4 n = round_to_53 p"
    using round_to_53_exact [OF n53] by (simp add: float_mul_0_4_def p_def)
  have qr: "2 * n = 5 * q + r" and r4: "r \<le> 4" by (simp_all add: q_def r_def)
  have five: "5 * p = 2 ^ 54 * (2 * n) + 2 * n"
    by (simp add: p_def double_0_4_def)
  have p103: "p < 2 ^ 103" using assms by (simp add: p_def double_0_4_def)
  have plow: "q * 2 ^ 54 \<le> p" using five qr by simp
  have low: "q * 2 ^ 54 \<le> round_to_53 p" using p103 plow by (rule round_to_53_lower)
  have up: "round_to_53 p \<le> p + 2 ^ 49" using p103 by (rule round_to_53_upper)
  have "5 * round_to_53 p < 5 * ((q + 1) * 2 ^ 54)"
    using up five qr r4 assms by simp
  then have high: "round_to_53 p < (q + 1) * 2 ^ 54" by simp
  have "round_to_53 p div 2 ^ 54 = q"
    using low high by (simp add: div_nat_eqI mult.commute)
  then show ?thesis by (simp add: int_of_float_def fm q_def)
qed

lemma floor_two_fifths: "nat \<lfloor>(4 / 10 :: rat) * of_nat n\<rfloor> = (2 * n) div 5"
proof -
  have "(4 / 10 :: rat) * of_nat n = of_nat (2 * n) / of_nat 5" by simp
  then have "\<lfloor>(4 / 10 :: rat) * of_nat n\<rfloor> = int ((2 * n) div 5)"
    by (simp only: floor_divide_of_nat_eq)
  then show ?thesis by simp
qed

text \<open>
  Claim C2. For a number of analysed pages \<open>n\<close> the threshold is \<open>n\<close> when \<open>n\<close> is 2
  or 3, \<open>\<lfloor>0.4 n\<rfloor>\<close> when \<open>n > 10\<close>, and 4 otherwise; so it is 2, 3, 4, 4 and 8 for 2, 3,
  4, 11 and 20 pages. The product is a binary64 product in the code; it is shown to
  truncate to \<open>\<lfloor>0.4 n\<rfloor>\<close> for every \<open>n\<close> below \<open>2\<^sup>5\<^sup>0\<close>, which is more pages than a list
  can hold.
\<close>

theorem threshold_rule:
  "n < 2 ^ 50 \<Longrightarrow>
   threshold_of n =
     (if n = 2 \<or> n = 3 then n
      else if 10 < n then nat \<lfloor>(4 / 10 :: rat) * of_nat n\<rfloor>
      else 4)"
  unfolding floor_two_fifths by (auto simp: threshold_of_def int_float_mul_0_4)

theorem threshold_rule_witness:
  "threshold_of 2 = 2 \<and> threshold_of 3 = 3 \<and> threshold_of 4 = 4 \<and> threshold_of 11 = 4
     \<and> threshold_of 20 = 8 \<and> threshold_of 0 = 4 \<and> threshold_of 1 = 4 \<and> threshold_of 10 = 4"
  using threshold_rule [of 2] threshold_rule [of 3] threshold_rule [of 4]
    threshold_rule [of 11] threshold_rule [of 20] threshold_rule [of 0]
    threshold_rule [of 1] threshold_rule [of 10]
  unfolding floor_two_fifths by simp

text \<open>
  The bound is not idle: at \<open>3 \<times> 2\<^sup>5\<^sup>0\<close> pages the binary64 product rounds up to the
  next integer, and the threshold is one more than \<open>\<lfloor>0.4 n\<rfloor>\<close>.
\<close>

lemma bit_length_numeral:
  "bit_length (Suc 0) = 1"
  "bit_length (numeral Num.One) = 1"
  "bit_length (numeral (Num.Bit0 n)) = Suc (bit_length (numeral n))"
  "bit_length (numeral (Num.Bit1 n)) = Suc (bit_length (numeral n))"
  by (subst bit_length.simps, simp add: bit_length.simps [of 0])+

lemma threshold_beyond_the_bound:
  "threshold_of 3377699720527872 = 1351079888211149 \<and>
   nat \<lfloor>(4 / 10 :: rat) * of_nat 3377699720527872\<rfloor> = 1351079888211148 \<and>
   (3377699720527872 :: nat) = 3 * 2 ^ 50"
proof -
  have "round_to_53 3377699720527872 = 3377699720527872"
    by (rule round_to_53_exact) simp
  then have "float_mul_0_4 3377699720527872 = 24338891524382008111616403439616"
    by (simp add: float_mul_0_4_def double_0_4_def round_to_53_def bit_length_numeral Let_def)
  then have "threshold_of 3377699720527872 = 1351079888211149"
    by (simp add: threshold_of_def int_of_float_def)
  moreover have "nat \<lfloor>(4 / 10 :: rat) * of_nat 3377699720527872\<rfloor> = 1351079888211148"
    unfolding floor_two_fifths by simp
  ultimately show ?thesis by simp
qed


section \<open>The two loops of the detector\<close>

lemma signatures_Nil [simp]: "signatures [] = []"
  by (simp add: signatures_def List.map_filter_simps)

lemma signatures_snoc:
  "signatures (bs @ [b]) =
     signatures bs @ (case block_text b of None \<Rightarrow> [] | Some t \<Rightarrow> [signature t])"
  by (simp add: signatures_def List.map_filter_def split: option.splits)

lemma length_signatures: "length (signatures bs) \<le> length bs"
  by (simp add: signatures_def List.map_filter_def)

lemma neg_index_rev: "i < length bs \<Longrightarrow> neg_index bs (Suc i) = rev bs ! i"
  by (simp add: neg_index_def rev_nth)

lemma take_Suc_rev:
  "n < length bs \<Longrightarrow> take (Suc n) (rev bs) = take n (rev bs) @ [neg_index bs (n + 1)]"
  by (simp add: take_Suc_conv_app_nth neg_index_rev)

lemma tally_fold:
  "fold (tally_step bs) [0..<n] (H, F) =
     (H + mset (signatures (take n bs)), F + mset (signatures (take n (rev bs))))"
proof (induction n)
  case 0
  then show ?case by simp
next
  case (Suc n)
  show ?case
  proof (cases "n < length bs")
    case True
    then show ?thesis
      using Suc
      by (simp add: tally_step_def take_Suc_conv_app_nth [of n bs] take_Suc_rev
          signatures_snoc split: option.splits)
  next
    case False
    then show ?thesis using Suc by (simp add: tally_step_def)
  qed
qed

lemma classify_fold:
  "fold (classify_step H F th bs) [0..<n] (hb, fb) =
     (hb @ filter (classified H th) (take n bs), fb @ filter (classified F th) (take n (rev bs)))"
proof (induction n)
  case 0
  then show ?case by simp
next
  case (Suc n)
  show ?case
  proof (cases "n < length bs")
    case True
    then show ?thesis
      using Suc
      by (simp add: classify_step_def take_Suc_conv_app_nth [of n bs] take_Suc_rev
          classified_def split: option.splits)
  next
    case False
    then show ?thesis using Suc by (simp add: classify_step_def)
  qed
qed

lemma tally_page_eq:
  "tally_page srt page (H, F) =
     (H + mset (header_signatures srt page), F + mset (footer_signatures srt page))"
  by (simp add: tally_page_def tally_fold header_signatures_def footer_signatures_def)

lemma tally_pages_fold:
  "fold (tally_page srt) pages (H, F) =
     (H + mset (concat (map (header_signatures srt) pages)),
      F + mset (concat (map (footer_signatures srt) pages)))"
  by (induction pages arbitrary: H F) (simp_all add: tally_page_eq ac_simps)

lemma tally_pass_eq:
  "tally_pass srt pages =
     (mset (concat (map (header_signatures srt) pages)),
      mset (concat (map (footer_signatures srt) pages)))"
  by (simp add: tally_pass_def tally_pages_fold)

lemma classify_page_eq:
  "blocks page \<noteq> [] \<Longrightarrow>
   classify_page srt H F th page =
     page\<lparr>header := Some (max_default
               (map (\<lambda>b. y1 (bbox b)) (filter (classified H th) (take 3 (srt (blocks page))))) 0),
          footer := Some (min_default
               (map (\<lambda>b. y0 (bbox b)) (filter (classified F th) (take 3 (rev (srt (blocks page))))))
               (y1 (page_bbox page)))\<rparr>"
  by (simp add: classify_page_def classify_fold Let_def)

lemma max_default_eq: "max_default xs d = (if xs = [] then d else Max (set xs))"
proof (cases xs)
  case Nil
  then show ?thesis by (simp add: max_default_def)
next
  case (Cons x rest)
  have "fold max rest x = Max (set (x # rest))" by (rule Max.set_eq_fold [symmetric])
  then show ?thesis using Cons by (simp add: max_default_def)
qed

lemma min_default_eq: "min_default xs d = (if xs = [] then d else Min (set xs))"
proof (cases xs)
  case Nil
  then show ?thesis by (simp add: min_default_def)
next
  case (Cons x rest)
  have "fold min rest x = Min (set (x # rest))" by (rule Min.set_eq_fold [symmetric])
  then show ?thesis using Cons by (simp add: min_default_def)
qed

lemma length_header_signatures: "length (header_signatures srt page) \<le> 3"
  using length_signatures [of "take 3 (srt (blocks page))"]
  by (simp add: header_signatures_def)

lemma length_footer_signatures: "length (footer_signatures srt page) \<le> 3"
  using length_signatures [of "take 3 (rev (srt (blocks page)))"]
  by (simp add: footer_signatures_def)

lemma length_concat_le:
  "(\<And>x. length (f x) \<le> k) \<Longrightarrow> length (concat (map f xs)) \<le> k * length xs"
proof (induction xs)
  case Nil
  then show ?case by simp
next
  case (Cons x xs)
  then have "length (f x) \<le> k" and "length (concat (map f xs)) \<le> k * length xs" by simp_all
  then show ?case by simp
qed

lemma size_tally_pass:
  "size (fst (tally_pass srt pages)) \<le> 3 * length pages"
  "size (snd (tally_pass srt pages)) \<le> 3 * length pages"
  using length_concat_le [of "header_signatures srt" 3 pages, OF length_header_signatures]
        length_concat_le [of "footer_signatures srt" 3 pages, OF length_footer_signatures]
  by (simp_all add: tally_pass_eq)

lemma not_classified_small:
  assumes "size tally \<le> th"
  shows "\<not> classified tally th b"
proof (cases "block_text b")
  case None
  then show ?thesis by (simp add: classified_def)
next
  case (Some t)
  have "count tally (signature t) \<le> th"
    using count_le_size [of tally "signature t"] assms by linarith
  then show ?thesis using Some by (simp add: classified_def)
qed

lemma max_default_Nil [simp]: "max_default [] d = d"
  by (simp add: max_default_def)

lemma min_default_Nil [simp]: "min_default [] d = d"
  by (simp add: min_default_def)

lemma filter_classified_small:
  "size tally \<le> th \<Longrightarrow> filter (classified tally th) xs = []"
  by (simp add: not_classified_small)

lemma parse_header_footer_nth:
  "i < length pages \<Longrightarrow>
   parse_header_footer srt pages ! i =
     classify_page srt (fst (tally_pass srt pages)) (snd (tally_pass srt pages))
       (threshold_of (length pages)) (pages ! i)"
  by (simp add: parse_header_footer_def Let_def)


section \<open>Evaluating the concrete documents\<close>

lemmas document_defs = text_block_def graphic_block_def raw_page_of_def as_listed_def

lemmas tally_eval = tally_pass_eq header_signatures_def footer_signatures_def signatures_def
  List.map_filter_simps

lemma long_document_tally:
  "tally_pass as_listed long_document =
     (replicate_mset 5 ''Report'', replicate_mset 5 ''Page 1'')"
  by (simp add: long_document_def long_page_def document_defs tally_eval signature_eval
      eval_nat_numeral)


section \<open>The detector\<close>

text \<open>
  Claim C1, amended. For every document and every page of it that has at least one block:
  a block of the header window (the first three blocks in reading order) is classified
  header iff it has a text and the count of its signature in the header tally exceeds the
  threshold, symmetrically for the footer window (the last three blocks) and the footer
  tally; the page's header boundary is set to the greatest bottom of its header blocks, 0
  if there is none, and its footer boundary to the least top of its footer blocks, the
  bottom edge of the page if there is none. The tallies hold one count for each block
  with a text in a window of a page.
\<close>

theorem detector_boundaries:
  assumes "i < length pages" and "blocks (pages ! i) \<noteq> []"
  shows "tally_pass srt pages =
           (mset (concat (map (header_signatures srt) pages)),
            mset (concat (map (footer_signatures srt) pages))) \<and>
         (classified tally th b \<longleftrightarrow>
            (\<exists>t. block_text b = Some t \<and> th < count tally (signature t))) \<and>
         (let threshold = threshold_of (length pages);
              bs = srt (blocks (pages ! i));
              header_blocks = filter (classified (fst (tally_pass srt pages)) threshold) (take 3 bs);
              footer_blocks =
                filter (classified (snd (tally_pass srt pages)) threshold) (take 3 (rev bs))
          in parse_header_footer srt pages ! i =
               (pages ! i)
                 \<lparr>header := Some (if header_blocks = [] then 0
                                   else Max (set (map (\<lambda>b. y1 (bbox b)) header_blocks))),
                  footer := Some (if footer_blocks = [] then y1 (page_bbox (pages ! i))
                                   else Min (set (map (\<lambda>b. y0 (bbox b)) footer_blocks)))\<rparr>)"
proof -
  have "classified tally th b \<longleftrightarrow> (\<exists>t. block_text b = Some t \<and> th < count tally (signature t))"
    by (simp add: classified_def split: option.splits)
  then show ?thesis
    using assms
    by (simp add: tally_pass_eq [symmetric] parse_header_footer_nth classify_page_eq Let_def
        max_default_eq min_default_eq)
qed

theorem detector_boundaries_witness:
  "2 < length long_document \<and> blocks (long_document ! 2) \<noteq> [] \<and>
   threshold_of (length long_document) = 4 \<and>
   header (parse_header_footer as_listed long_document ! 2) = Some 50 \<and>
   footer (parse_header_footer as_listed long_document ! 2) = Some 700"
proof -
  have len: "2 < length long_document" by (simp add: long_document_def)
  have blk: "blocks (long_document ! 2) \<noteq> []"
    by (simp add: long_document_def long_page_def document_defs)
  have th: "threshold_of (length long_document) = 4"
    by (simp add: long_document_def threshold_of_def)
  have p2: "long_document ! 2 = long_page ''3''" by (simp add: long_document_def)
  show ?thesis
    using detector_boundaries [OF len blk, of as_listed "{#}" 0 "text_block [] 0 0"] len blk th
    by (simp add: long_document_tally p2 long_page_def document_defs classified_def
        signature_eval Let_def)
qed

text \<open>
  As stated for each page, C1 fails on a page without blocks: the second loop leaves it at
  \<^verbatim>\<open>if not elements: continue\<close>, and neither boundary is written.
\<close>

theorem blank_page_not_written:
  "header (parse_header_footer as_listed blank_document ! 0) \<noteq> Some 0 \<and>
   footer (parse_header_footer as_listed blank_document ! 0)
     \<noteq> Some (y1 (page_bbox (blank_document ! 0)))"
  by (simp add: blank_document_def parse_header_footer_def classify_page_def document_defs Let_def)

text \<open>
  Claim C5, amended. After the tally pass the count of every signature in the header
  tally, and in the footer tally, is at most three times the number of analysed pages:
  a page adds at most three counts to each tally.
\<close>

theorem tally_at_most_three_per_page:
  "count (fst (tally_pass srt pages)) s \<le> 3 * length pages \<and>
   count (snd (tally_pass srt pages)) s \<le> 3 * length pages \<and>
   size (fst (tally_pass srt pages)) \<le> 3 * length pages \<and>
   size (snd (tally_pass srt pages)) \<le> 3 * length pages"
  using size_tally_pass [of srt pages]
    count_le_size [of "fst (tally_pass srt pages)" s]
    count_le_size [of "snd (tally_pass srt pages)" s]
  by linarith

text \<open>
  As stated (at most the number of pages), C5 fails: a page whose first three blocks
  have the same signature adds three counts for it.
\<close>

theorem tally_exceeds_page_count:
  "length repeated_on_one_page = 1 \<and>
   count (fst (tally_pass as_listed repeated_on_one_page)) ''a'' = 3 \<and>
   count (snd (tally_pass as_listed repeated_on_one_page)) ''a'' = 3 \<and>
   \<not> count (fst (tally_pass as_listed repeated_on_one_page)) ''a''
       \<le> length repeated_on_one_page"
  by (simp add: repeated_on_one_page_def document_defs tally_eval signature_eval)

text \<open>
  Claim C10. For a document of one page the threshold is 4 and each tally holds at most
  three counts, so no block is classified, and a page with at least one block receives
  the header boundary 0 and as footer boundary its bottom edge.
\<close>

theorem single_page_defaults:
  "threshold_of (length [p]) = 4 \<and>
   size (fst (tally_pass srt [p])) \<le> 3 \<and>
   size (snd (tally_pass srt [p])) \<le> 3 \<and>
   \<not> classified (fst (tally_pass srt [p])) (threshold_of (length [p])) b \<and>
   \<not> classified (snd (tally_pass srt [p])) (threshold_of (length [p])) b \<and>
   (blocks p \<noteq> [] \<longrightarrow>
      parse_header_footer srt [p] = [p\<lparr>header := Some 0, footer := Some (y1 (page_bbox p))\<rparr>])"
proof -
  have th: "threshold_of (length [p]) = 4" by (simp add: threshold_of_def)
  have hs: "size (fst (tally_pass srt [p])) \<le> 4" and fs: "size (snd (tally_pass srt [p])) \<le> 4"
    using size_tally_pass [of srt "[p]"] by simp_all
  have nh: "\<not> classified (fst (tally_pass srt [p])) 4 b"
    using hs by (rule not_classified_small)
  have nf: "\<not> classified (snd (tally_pass srt [p])) 4 b"
    using fs by (rule not_classified_small)
  have "parse_header_footer srt [p] = [p\<lparr>header := Some 0, footer := Some (y1 (page_bbox p))\<rparr>]"
    if "blocks p \<noteq> []"
    using that th
    by (simp add: parse_header_footer_def Let_def classify_page_eq
        filter_classified_small [OF hs] filter_classified_small [OF fs])
  then show ?thesis
    using th nh nf size_tally_pass [of srt "[p]"] by simp
qed

theorem single_page_defaults_witness:
  "blocks (hd one_page_document) \<noteq> [] \<and>
   threshold_of (length one_page_document) = 4 \<and>
   parse_header_footer as_listed one_page_document =
     [(hd one_page_document)\<lparr>header := Some 0, footer := Some 800\<rparr>]"
  using single_page_defaults [where p = "raw_page_of [text_block ''Title'' 10 50]"
      and srt = as_listed and b = "text_block ''Title'' 10 50"]
  by (simp add: one_page_document_def document_defs)


section \<open>Which blocks take part\<close>

lemma signatures_filter:
  "signatures bs =
     map (\<lambda>b. signature (the (block_text b))) (filter (\<lambda>b. block_text b \<noteq> None) bs)"
  by (simp add: signatures_def List.map_filter_def)

lemma classified_filter:
  "classified tally th = (\<lambda>b. block_text b \<noteq> None \<and> th < count tally (signature (the (block_text b))))"
  by (auto simp: classified_def fun_eq_iff split: option.splits)

lemma strip_eq_Nil_iff: "strip t = [] \<longleftrightarrow> (\<forall>c \<in> set t. isspace c)"
proof
  assume "strip t = []"
  then have all: "\<forall>x \<in> set (dropWhile isspace t). isspace x"
    by (simp add: strip_def dropWhile_eq_Nil_conv)
  have "dropWhile isspace t = []"
  proof (rule ccontr)
    assume ne: "dropWhile isspace t \<noteq> []"
    then have "\<not> isspace (hd (dropWhile isspace t))" by (rule hd_dropWhile)
    moreover have "hd (dropWhile isspace t) \<in> set (dropWhile isspace t)" using ne by simp
    ultimately show False using all by blast
  qed
  then show "\<forall>c \<in> set t. isspace c" by (simp add: dropWhile_eq_Nil_conv)
next
  assume "\<forall>c \<in> set t. isspace c"
  then have e: "dropWhile isspace t = []" by (simp add: dropWhile_eq_Nil_conv)
  show "strip t = []" by (simp only: strip_def e rev.simps dropWhile.simps)
qed

lemma signature_blank: "strip t = [] \<Longrightarrow> signature t = []"
  by (simp add: signature_def)

lemma space_document_tally:
  "tally_pass as_listed space_document = (replicate_mset 5 [], replicate_mset 5 [])"
  by (simp add: space_document_def document_defs tally_eval signature_eval eval_nat_numeral)

text \<open>
  Claim C4, amended. On every page with at least one block, a block of the first-three or
  of the last-three window whose text is null is left out of the tally pass and of the
  classification pass, and every window block whose text is not null takes part in both:
  it adds one count for its signature, and it is classified when that signature's count
  exceeds the threshold. A text that is empty after trimming takes part under the empty
  signature.
\<close>

theorem text_blocks_participate:
  assumes "blocks page \<noteq> []"
  shows "(let bs = srt (blocks page) in
          tally_page srt page (H, F) =
            (H + mset (map (\<lambda>b. signature (the (block_text b)))
                        (filter (\<lambda>b. block_text b \<noteq> None) (take 3 bs))),
             F + mset (map (\<lambda>b. signature (the (block_text b)))
                        (filter (\<lambda>b. block_text b \<noteq> None) (take 3 (rev bs))))) \<and>
          fold (classify_step H F th bs) [0..<3] ([], []) =
            (filter (\<lambda>b. block_text b \<noteq> None \<and>
                          th < count H (signature (the (block_text b)))) (take 3 bs),
             filter (\<lambda>b. block_text b \<noteq> None \<and>
                          th < count F (signature (the (block_text b)))) (take 3 (rev bs)))) \<and>
         (strip t = [] \<longrightarrow> signature t = [])"
  using assms
  by (simp add: Let_def tally_page_eq header_signatures_def footer_signatures_def
      signatures_filter classify_fold classified_filter signature_blank)

theorem text_blocks_participate_witness:
  "blocks mixed_page \<noteq> [] \<and>
   tally_page as_listed mixed_page ({#}, {#}) = ({#[]#}, {#[]#}) \<and>
   fold (classify_step {#[]#} {#[]#} 0 (as_listed (blocks mixed_page))) [0..<3] ([], []) =
     ([text_block '' '' 10 50], [text_block '' '' 10 50]) \<and>
   strip '' '' = [] \<and> signature '' '' = []"
proof -
  have b: "blocks mixed_page \<noteq> []" by (simp add: mixed_page_def document_defs)
  show ?thesis
    using text_blocks_participate [OF b, where srt = as_listed and H = "{#}" and F = "{#}"
        and th = 0 and t = "'' ''"]
      text_blocks_participate [OF b, where srt = as_listed and H = "{#[]#}" and F = "{#[]#}"
        and th = 0 and t = "'' ''"]
    by (simp add: mixed_page_def document_defs signature_eval Let_def)
qed

text \<open>
  As stated, C4 fails for a text of whitespace only: the code tests \<^verbatim>\<open>text is not None\<close>
  and nothing else, so five pages whose only block reads one space give the empty
  signature five counts, and the block is classified header and footer.
\<close>

theorem blank_text_is_tallied:
  "block_text (hd (blocks (space_document ! 0))) \<noteq> None \<and>
   strip (the (block_text (hd (blocks (space_document ! 0))))) = [] \<and>
   count (fst (tally_pass as_listed space_document)) [] = 5 \<and>
   threshold_of (length space_document) = 4 \<and>
   header (parse_header_footer as_listed space_document ! 0) = Some 50 \<and>
   footer (parse_header_footer as_listed space_document ! 0) = Some 10"
proof -
  have len: "length space_document = 5" by (simp add: space_document_def)
  have p0: "space_document ! 0 = raw_page_of [text_block '' '' 10 50]"
    by (simp add: space_document_def eval_nat_numeral)
  have th: "threshold_of (length space_document) = 4" by (simp add: len threshold_of_def)
  show ?thesis
    by (simp add: parse_header_footer_nth len th [unfolded len] p0 space_document_tally
        classify_page_eq classified_def max_default_def min_default_def document_defs
        signature_eval)
qed


section \<open>Pages that add nothing\<close>

lemma tally_page_no_text:
  assumes "\<forall>b \<in> set (take 3 (srt (blocks page))) \<union> set (take 3 (rev (srt (blocks page)))).
             block_text b = None"
  shows "tally_page srt page hf = hf"
proof -
  have "filter (\<lambda>b. block_text b \<noteq> None) (take 3 (srt (blocks page))) = []"
    and "filter (\<lambda>b. block_text b \<noteq> None) (take 3 (rev (srt (blocks page)))) = []"
    using assms by (auto simp: filter_empty_conv)
  then show ?thesis
    by (cases hf) (simp add: tally_page_eq header_signatures_def footer_signatures_def
        signatures_filter)
qed

lemma classify_page_no_text:
  assumes "blocks page \<noteq> []"
    and "\<forall>b \<in> set (take 3 (srt (blocks page))) \<union> set (take 3 (rev (srt (blocks page)))).
             block_text b = None"
  shows "classify_page srt H F th page =
           page\<lparr>header := Some 0, footer := Some (y1 (page_bbox page))\<rparr>"
proof -
  have "filter (classified H th) (take 3 (srt (blocks page))) = []"
    and "filter (classified F th) (take 3 (rev (srt (blocks page)))) = []"
    using assms(2) by (auto simp: filter_empty_conv classified_def)
  then show ?thesis using assms(1) by (simp add: classify_page_eq)
qed

lemma report_document_nth:
  "length report_document = 7"
  "report_document ! 0 = raw_page_of [text_block ''Report'' 10 50]"
  "report_document ! 5 = raw_page_of []"
  "report_document ! 6 = raw_page_of [graphic_block 100 300]"
  by (simp_all add: report_document_def nth_append eval_nat_numeral)

lemma report_document_tally:
  "tally_pass as_listed report_document =
     (replicate_mset 5 ''Report'', replicate_mset 5 ''Report'')"
  by (simp add: report_document_def document_defs tally_eval signature_eval eval_nat_numeral)

text \<open>
  Claim C6, amended. Whatever the other pages hold: a page without blocks adds nothing to
  the tallies and is left as it was, the detector writing neither boundary; a page with at
  least one block but no text in its two windows adds nothing to the tallies and receives
  the header boundary 0 and as footer boundary its bottom edge.
\<close>

theorem pages_without_text:
  assumes "i < length pages"
  shows "(blocks (pages ! i) = [] \<longrightarrow>
            tally_page srt (pages ! i) hf = hf \<and>
            parse_header_footer srt pages ! i = pages ! i) \<and>
         (blocks (pages ! i) \<noteq> [] \<and>
          (\<forall>b \<in> set (take 3 (srt (blocks (pages ! i))))
                \<union> set (take 3 (rev (srt (blocks (pages ! i))))). block_text b = None) \<longrightarrow>
            tally_page srt (pages ! i) hf = hf \<and>
            parse_header_footer srt pages ! i =
              (pages ! i)\<lparr>header := Some 0, footer := Some (y1 (page_bbox (pages ! i)))\<rparr>)"
proof -
  have none: "tally_page srt (pages ! i) hf = hf \<and> parse_header_footer srt pages ! i = pages ! i"
    if "blocks (pages ! i) = []"
    using that assms by (simp add: parse_header_footer_nth tally_page_def classify_page_def)
  have some: "tally_page srt (pages ! i) hf = hf \<and>
        parse_header_footer srt pages ! i =
          (pages ! i)\<lparr>header := Some 0, footer := Some (y1 (page_bbox (pages ! i)))\<rparr>"
    if "blocks (pages ! i) \<noteq> []"
      and "\<forall>b \<in> set (take 3 (srt (blocks (pages ! i))))
                \<union> set (take 3 (rev (srt (blocks (pages ! i))))). block_text b = None"
    using that assms
    by (simp add: parse_header_footer_nth tally_page_no_text classify_page_no_text)
  show ?thesis using none some by blast
qed

theorem pages_without_text_witness:
  "5 < length report_document \<and> blocks (report_document ! 5) = [] \<and>
   parse_header_footer as_listed report_document ! 5 = report_document ! 5 \<and>
   6 < length report_document \<and> blocks (report_document ! 6) \<noteq> [] \<and>
   header (parse_header_footer as_listed report_document ! 6) = Some 0 \<and>
   footer (parse_header_footer as_listed report_document ! 6) = Some 800 \<and>
   tally_page as_listed (report_document ! 6) ({#}, {#}) = ({#}, {#})"
proof -
  have l5: "5 < length report_document" and l6: "6 < length report_document"
    by (simp_all add: report_document_nth)
  show ?thesis
    using pages_without_text [OF l5, where srt = as_listed and hf = "({#}, {#})"]
      pages_without_text [OF l6, where srt = as_listed and hf = "({#}, {#})"]
    by (simp add: report_document_nth document_defs)
qed

text \<open>
  As stated, C6 fails for the page without blocks: the claim has the detector give it the
  boundaries 0 and bottom edge, but the second loop leaves such a page at
  \<^verbatim>\<open>if not elements: continue\<close> before the two assignments, while the pages that carry
  the running head do get their header boundary.
\<close>

theorem page_without_blocks_not_written:
  "blocks (report_document ! 5) = [] \<and>
   header (parse_header_footer as_listed report_document ! 0) = Some 50 \<and>
   header (parse_header_footer as_listed report_document ! 5) \<noteq> Some 0 \<and>
   footer (parse_header_footer as_listed report_document ! 5)
     \<noteq> Some (y1 (page_bbox (report_document ! 5)))"
proof -
  have th: "threshold_of 7 = 4" by (simp add: threshold_of_def)
  show ?thesis
    by (simp add: parse_header_footer_nth report_document_nth th report_document_tally
        classify_page_def classify_fold classified_def max_default_def document_defs
        signature_eval Let_def)
qed


section \<open>The order of the two boundaries\<close>







text \<open>
  Disjoint windows alone do not give the order either: on a page of six blocks, with a
  first block that runs beside the others down to 700 and a last block that begins at
  600, the header boundary is below the footer boundary again.
\<close>

lemma sidebar_document_tally:
  "tally_pass as_listed sidebar_document =
     (replicate_mset 5 ''Contents'', replicate_mset 5 ''Draft'')"
  by (simp add: sidebar_document_def sidebar_page_def document_defs tally_eval signature_eval
      eval_nat_numeral)

lemma header_below_footer_beside:
  "6 \<le> length (as_listed (blocks (sidebar_document ! 0))) \<and>
   header (parse_header_footer as_listed sidebar_document ! 0) = Some 700 \<and>
   footer (parse_header_footer as_listed sidebar_document ! 0) = Some 600"
proof -
  have len: "length sidebar_document = 5" by (simp add: sidebar_document_def)
  have p0: "sidebar_document ! 0 = sidebar_page"
    by (simp add: sidebar_document_def eval_nat_numeral)
  have th: "threshold_of 5 = 4" by (simp add: threshold_of_def)
  show ?thesis
    by (simp add: parse_header_footer_nth len th p0 sidebar_document_tally sidebar_page_def
        classify_page_eq classified_def max_default_def min_default_def document_defs
        signature_eval)
qed


section \<open>The coordinator's run\<close>

lemma restore_step_skip:
  "skip_parsing (self ! i) \<Longrightarrow>
   restore_step C fonts i (self, pages, raw_pages, found) = (self, pages, raw_pages, found)"
  by (simp add: restore_step_def)

lemma restore_step_take:
  "\<not> skip_parsing (self ! i) \<Longrightarrow>
   restore_step C (fonts_extract C) i (self, pages, raw_pages, found) =
     (self[i := restored C (self ! i)], pages @ [i], raw_pages @ [raw_of C (self ! i)],
      found \<or> has_words C (self ! i))"
  by (auto simp: restore_step_def restored_def raw_of_def has_words_def Let_def)

lemma restore_fold:
  "n \<le> length ps \<Longrightarrow>
   fold (restore_step C (fonts_extract C)) [0..<n] (ps, [], [], False) =
     (map (\<lambda>p. if skip_parsing p then p else restored C p) (take n ps) @ drop n ps,
      filter (\<lambda>i. \<not> skip_parsing (ps ! i)) [0..<n],
      map (raw_of C) (filter (\<lambda>p. \<not> skip_parsing p) (take n ps)),
      \<exists>p \<in> set (take n ps). \<not> skip_parsing p \<and> has_words C p)"
proof (induction n)
  case 0
  then show ?case by simp
next
  case (Suc n)
  let ?f = "\<lambda>p. if skip_parsing p then p else restored C p"
  let ?self = "map ?f (take n ps) @ drop n ps"
  have n: "n < length ps" using Suc.prems by simp
  have at: "?self ! n = ps ! n" using n by (simp add: nth_append)
  have tk: "take (Suc n) ps = take n ps @ [ps ! n]" using n by (rule take_Suc_conv_app_nth)
  have dr: "drop n ps = ps ! n # drop (Suc n) ps" using n by (rule Cons_nth_drop_Suc [symmetric])
  have upd: "?self[n := v] = map ?f (take n ps) @ v # drop (Suc n) ps" for v
    using n by (simp add: list_update_append dr)
  have IH: "fold (restore_step C (fonts_extract C)) [0..<n] (ps, [], [], False) =
     (?self, filter (\<lambda>i. \<not> skip_parsing (ps ! i)) [0..<n],
      map (raw_of C) (filter (\<lambda>p. \<not> skip_parsing p) (take n ps)),
      \<exists>p \<in> set (take n ps). \<not> skip_parsing p \<and> has_words C p)"
    using Suc.IH n by simp
  show ?case
  proof (cases "skip_parsing (ps ! n)")
    case True
    then show ?thesis
      using at by (simp add: IH restore_step_skip tk) (simp add: dr)
  next
    case False
    then show ?thesis
      using at by (simp add: IH restore_step_take tk upd) blast
  qed
qed

lemma section_step_eq:
  "section_step C (i, r) self = self[i := sectioned C (self ! i) r]"
  by (simp add: section_step_def sectioned_def Let_def)

lemma section_fold:
  "distinct js \<Longrightarrow> \<forall>j \<in> set js. j < length xs \<Longrightarrow>
   length (fold (section_step C) (map (\<lambda>j. (j, g j)) js) xs) = length xs \<and>
   (\<forall>i < length xs.
      fold (section_step C) (map (\<lambda>j. (j, g j)) js) xs ! i =
        (if i \<in> set js then sectioned C (xs ! i) (g i) else xs ! i))"
proof (induction js arbitrary: xs)
  case Nil
  then show ?case by simp
next
  case (Cons j js)
  let ?xs = "xs[j := sectioned C (xs ! j) (g j)]"
  have d: "distinct js" and nj: "j \<notin> set js" using Cons.prems(1) by simp_all
  have b: "\<forall>k \<in> set js. k < length ?xs" using Cons.prems(2) by simp
  have j: "j < length xs" using Cons.prems(2) by simp
  note IH = Cons.IH [OF d b]
  show ?case
  proof (intro conjI allI impI)
    show "length (fold (section_step C) (map (\<lambda>j. (j, g j)) (j # js)) xs) = length xs"
      using IH by (simp add: section_step_eq)
  next
    fix i assume i: "i < length xs"
    then have "fold (section_step C) (map (\<lambda>j. (j, g j)) js) ?xs ! i =
        (if i \<in> set js then sectioned C (?xs ! i) (g i) else ?xs ! i)"
      using IH by simp
    then show "fold (section_step C) (map (\<lambda>j. (j, g j)) (j # js)) xs ! i =
        (if i \<in> set (j # js) then sectioned C (xs ! i) (g i) else xs ! i)"
      using nj j i by (auto simp: section_step_eq nth_list_update)
  qed
qed

lemma filter_by_index:
  "filter P xs = map (\<lambda>i. xs ! i) (filter (\<lambda>i. P (xs ! i)) [0..<length xs])"
proof -
  have "filter P xs = filter P (map (\<lambda>i. xs ! i) [0..<length xs])" by (simp add: map_nth)
  also have "\<dots> = map (\<lambda>i. xs ! i) (filter (\<lambda>i. P (xs ! i)) [0..<length xs])"
    by (simp add: filter_map comp_def)
  finally show ?thesis .
qed

lemma zip_with_map: "zip xs (map h xs) = map (\<lambda>x. (x, h x)) xs"
  by (induction xs) simp_all

lemma parse_eq:
  "parse C ps =
     (fold (section_step C)
        (map (\<lambda>i. (i, detected C ps (ps ! i)))
           (filter (\<lambda>i. \<not> skip_parsing (ps ! i)) [0..<length ps]))
        (map (\<lambda>p. if skip_parsing p then p else restored C p) ps),
      if \<exists>p \<in> set ps. \<not> skip_parsing p \<and> has_words C p then [] else [words_count_warning])"
proof -
  let ?js = "filter (\<lambda>i. \<not> skip_parsing (ps ! i)) [0..<length ps]"
  let ?raws = "map (raw_of C) (filter (\<lambda>p. \<not> skip_parsing p) ps)"
  have raws: "?raws = map (\<lambda>i. raw_of C (ps ! i)) ?js"
    by (subst filter_by_index) (simp add: comp_def)
  have "parse_document (sort_in_reading_order C) ?raws = map (\<lambda>i. detected C ps (ps ! i)) ?js"
    unfolding parse_document_def parse_header_footer_def detected_def Let_def
    by (subst (3) raws) (simp add: comp_def)
  then have "zip ?js (parse_document (sort_in_reading_order C) ?raws) =
      map (\<lambda>i. (i, detected C ps (ps ! i))) ?js"
    by (simp add: zip_with_map)
  then show ?thesis
    using restore_fold [of "length ps" ps C]
    by (simp add: parse_def Let_def)
qed

lemma parse_pages:
  "length (fst (parse C ps)) = length ps"
  "i < length ps \<Longrightarrow>
   fst (parse C ps) ! i =
     (if skip_parsing (ps ! i) then ps ! i
      else sectioned C (restored C (ps ! i)) (detected C ps (ps ! i)))"
proof -
  let ?js = "filter (\<lambda>i. \<not> skip_parsing (ps ! i)) [0..<length ps]"
  let ?xs = "map (\<lambda>p. if skip_parsing p then p else restored C p) ps"
  have d: "distinct ?js" by simp
  have b: "\<forall>j \<in> set ?js. j < length ?xs" by simp
  note F = section_fold [OF d b, of C "\<lambda>i. detected C ps (ps ! i)"]
  show "length (fst (parse C ps)) = length ps" using F by (simp add: parse_eq)
  show "fst (parse C ps) ! i =
     (if skip_parsing (ps ! i) then ps ! i
      else sectioned C (restored C (ps ! i)) (detected C ps (ps ! i)))" if "i < length ps"
    using F that by (simp add: parse_eq)
qed

lemma parse_logged:
  "snd (parse C ps) =
     (if \<exists>p \<in> set ps. \<not> skip_parsing p \<and> has_words C p then [] else [words_count_warning])"
  by (simp add: parse_eq)

lemma has_words_iff:
  "has_words C p \<longleftrightarrow> (\<exists>c \<in> set (raw_text (restore C (create C (page_id p)))). \<not> isspace c)"
  by (simp add: has_words_def strip_eq_Nil_iff)

lemmas sample_defs = sample_pages_def sample_page_def sample_raw_page_def sample_source_def
  printed_source_def

lemma sample_detected:
  "detected printed_source sample_pages (sample_pages ! 0) =
     (sample_raw_page [text_block ''Report'' 10 50] ''Report '')
       \<lparr>header := Some 0, footer := Some 800\<rparr>"
proof -
  have th: "threshold_of (Suc (Suc 0)) = 2" by (simp add: threshold_of_def)
  show ?thesis
    by (simp add: detected_def raw_of_def sample_defs document_defs th Let_def tally_eval
        signature_eval classify_page_eq classified_def)
qed

text \<open>
  Claim C8. A run of \<^verbatim>\<open>parse\<close> logs exactly one warning iff no page that is not skipped
  yielded a text with a character that is not whitespace, and logs nothing iff some page
  did; the warning is not an abort: with or without it, every page that is not skipped
  leaves the run with what the three phases give it.
\<close>

theorem warning_iff_no_words:
  "(snd (parse C ps) = [words_count_warning] \<longleftrightarrow>
      \<not> (\<exists>p \<in> set ps. \<not> skip_parsing p \<and> has_words C p)) \<and>
   (snd (parse C ps) = [] \<longleftrightarrow> (\<exists>p \<in> set ps. \<not> skip_parsing p \<and> has_words C p)) \<and>
   (has_words C q \<longleftrightarrow>
      (\<exists>c \<in> set (raw_text (restore C (create C (page_id q)))). \<not> isspace c)) \<and>
   length (fst (parse C ps)) = length ps \<and>
   (i < length ps \<and> \<not> skip_parsing (ps ! i) \<longrightarrow>
      fst (parse C ps) ! i = sectioned C (restored C (ps ! i)) (detected C ps (ps ! i)))"
  using has_words_iff [of C q]
  by (simp add: parse_logged parse_pages)

theorem warning_iff_no_words_witness:
  "snd (parse scanned_source sample_pages) = [words_count_warning] \<and>
   snd (parse printed_source sample_pages) = [] \<and>
   length (fst (parse scanned_source sample_pages)) = 3 \<and>
   width (fst (parse scanned_source sample_pages) ! 0) = 600"
proof -
  have scanned: "\<not> has_words scanned_source p" for p :: "(rat option \<times> rat option, nat, block) page"
    by (simp add: has_words_def scanned_source_def sample_defs strip_def isspace_def)
  have printed: "has_words printed_source p" for p :: "(rat option \<times> rat option, nat, block) page"
    by (simp add: has_words_def sample_defs strip_def isspace_def)
  have first: "0 < length sample_pages \<and> \<not> skip_parsing (sample_pages ! 0)"
    by (simp add: sample_defs)
  show ?thesis
    using warning_iff_no_words [of scanned_source sample_pages "sample_pages ! 0" 0]
      warning_iff_no_words [of printed_source sample_pages "sample_pages ! 0" 0]
      scanned printed first
    by (simp add: sectioned_def restored_def raw_of_def)
      (simp add: scanned_source_def sample_defs)
qed

text \<open>
  Claim C9. \<^verbatim>\<open>parse\<close> keeps the collection's length; it leaves every page whose skip
  flag is set exactly as it was, and gives every other page its width, height and floating
  images from its raw page and its margin and sections from the raw page as the detector
  left it, the sections appended to those it had.
\<close>

theorem parse_frame:
  "length (fst (parse C ps)) = length ps \<and>
   (\<forall>i < length ps.
      if skip_parsing (ps ! i) then fst (parse C ps) ! i = ps ! i
      else fst (parse C ps) ! i =
        (ps ! i)
          \<lparr>width := raw_width (raw_of C (ps ! i)),
           height := raw_height (raw_of C (ps ! i)),
           float_images := floating_image_blocks C (blocks (raw_of C (ps ! i))),
           margin := calculate_margin C (detected C ps (ps ! i)),
           sections := sections (ps ! i) @
             parse_section C
               ((detected C ps (ps ! i))
                  \<lparr>raw_margin := calculate_margin C (detected C ps (ps ! i))\<rparr>)\<rparr>)"
  by (simp add: parse_pages sectioned_def restored_def)

theorem parse_frame_witness:
  "fst (parse printed_source sample_pages) ! 1 = sample_pages ! 1 \<and>
   skip_parsing (sample_pages ! 1) \<and> \<not> skip_parsing (sample_pages ! 0) \<and>
   fst (parse printed_source sample_pages) ! 0 =
     \<lparr>page_id = 0, skip_parsing = False, width = 600, height = 800,
      margin = (Some 0, Some 800), sections = [7, 1],
      float_images = [text_block ''Report'' 10 50]\<rparr>"
proof -
  have l: "0 < length sample_pages" "1 < length sample_pages" by (simp_all add: sample_defs)
  have s: "skip_parsing (sample_pages ! 1)" "\<not> skip_parsing (sample_pages ! 0)"
    by (simp_all add: sample_defs)
  have 1: "fst (parse printed_source sample_pages) ! 1 = sample_pages ! 1"
    using parse_frame [of printed_source sample_pages] l(2) s(1) by auto
  have "fst (parse printed_source sample_pages) ! 0 =
     (sample_pages ! 0)
          \<lparr>width := raw_width (raw_of printed_source (sample_pages ! 0)),
           height := raw_height (raw_of printed_source (sample_pages ! 0)),
           float_images :=
             floating_image_blocks printed_source (blocks (raw_of printed_source (sample_pages ! 0))),
           margin := calculate_margin printed_source
             (detected printed_source sample_pages (sample_pages ! 0)),
           sections := sections (sample_pages ! 0) @
             parse_section printed_source
               ((detected printed_source sample_pages (sample_pages ! 0))
                  \<lparr>raw_margin := calculate_margin printed_source
                     (detected printed_source sample_pages (sample_pages ! 0))\<rparr>)\<rparr>"
    using parse_frame [of printed_source sample_pages] l(1) s(2) by auto
  then have 0: "fst (parse printed_source sample_pages) ! 0 =
     \<lparr>page_id = 0, skip_parsing = False, width = 600, height = 800,
      margin = (Some 0, Some 800), sections = [7, 1],
      float_images = [text_block ''Report'' 10 50]\<rparr>"
    unfolding sample_detected by (simp add: raw_of_def sample_defs)
  show ?thesis using 0 1 s by simp
qed

end
